theory Spec2Isabelle
  imports Main "HOL-Library.Extended_Nat"
begin

section \<open>Data model\<close>

text \<open>
  A Python \<open>str\<close> is a sequence of Unicode code points; \<open>len\<close> and the edit distance
  count code points, not bytes. A character is therefore its code point, a string a list
  of code points. Cyrillic small letters are 1072 (a) to 1103 (ya), with 1105 for yo.
\<close>

type_synonym pychar = nat
type_synonym pystr = "pychar list"

text \<open>
  A Python \<open>dict\<close> iterates in insertion order, and \<open>max\<close> returns the first maximal
  element of what it iterates, so the order of the keys is observable: a dict is an
  association list in insertion order. Lookup reads the first entry of a key.
\<close>

type_synonym ('k, 'v) pydict = "('k \<times> 'v) list"

datatype py_error = KeyError | ValueError

definition dict_keys :: "('k, 'v) pydict \<Rightarrow> 'k list" where
  "dict_keys d = map fst d"

definition dict_contains :: "('k, 'v) pydict \<Rightarrow> 'k \<Rightarrow> bool" where
  "dict_contains d k = (k \<in> set (dict_keys d))"

text \<open>\<open>d.get(k, default)\<close>\<close>

definition dict_get :: "('k, 'v) pydict \<Rightarrow> 'k \<Rightarrow> 'v \<Rightarrow> 'v" where
  "dict_get d k dflt = (case map_of d k of None \<Rightarrow> dflt | Some v \<Rightarrow> v)"

text \<open>\<open>d[k]\<close>, which raises KeyError on a missing key.\<close>

definition dict_getitem :: "('k, 'v) pydict \<Rightarrow> 'k \<Rightarrow> py_error + 'v" where
  "dict_getitem d k = (case map_of d k of None \<Rightarrow> Inl KeyError | Some v \<Rightarrow> Inr v)"

text \<open>\<open>d[k] = v\<close>: an existing key keeps its position, a new key goes to the end.\<close>

fun dict_setitem :: "('k, 'v) pydict \<Rightarrow> 'k \<Rightarrow> 'v \<Rightarrow> ('k, 'v) pydict" where
  "dict_setitem [] k v = [(k, v)]"
| "dict_setitem ((a, b) # ps) k v =
     (if a = k then (k, v) # ps else (a, b) # dict_setitem ps k v)"

text \<open>\<open>d.pop(k, None)\<close>, with the popped value dropped: never raises.\<close>

fun dict_pop :: "('k, 'v) pydict \<Rightarrow> 'k \<Rightarrow> ('k, 'v) pydict" where
  "dict_pop [] k = []"
| "dict_pop ((a, b) # ps) k = (if a = k then ps else (a, b) # dict_pop ps k)"

text \<open>The fields that \<open>SentenceCorrector.__init__\<close> sets.\<close>

record SentenceCorrector =
  dict_full :: "(pystr, int) pydict"
  train_dict :: "(pystr, int) pydict"
  sonority :: "(pystr, pystr) pydict"

section \<open>Built-in string operations\<close>

text \<open>
  \<open>str.isspace\<close> for one character: the code points Python treats as whitespace in
  \<open>str.split()\<close> and \<open>str.strip()\<close> without arguments.
\<close>

definition is_space :: "pychar \<Rightarrow> bool" where
  "is_space c =
     ((9 \<le> c \<and> c \<le> 13) \<or> (28 \<le> c \<and> c \<le> 32) \<or> c = 133 \<or> c = 160 \<or> c = 5760
      \<or> (8192 \<le> c \<and> c \<le> 8202) \<or> c = 8232 \<or> c = 8233 \<or> c = 8239 \<or> c = 8287
      \<or> c = 12288)"

text \<open>
  Modelled from the spec: Python's built-in \<open>str.lower\<close>, whose Unicode tables are not
  part of the repository. The model folds the Basic Latin capitals (65 to 90) and the
  Cyrillic capitals (1024 to 1039 onto 1104 to 1119, 1040 to 1071 onto 1072 to 1103),
  the working alphabet of the corrector, and leaves every other code point as it is.
\<close>

definition lower_char :: "pychar \<Rightarrow> pychar" where
  "lower_char c =
     (if 65 \<le> c \<and> c \<le> 90 then c + 32
      else if 1024 \<le> c \<and> c \<le> 1039 then c + 80
      else if 1040 \<le> c \<and> c \<le> 1071 then c + 32
      else c)"

definition str_lower :: "pystr \<Rightarrow> pystr" where
  "str_lower s = map lower_char s"

text \<open>\<open>s.split()\<close>: split on runs of whitespace, no empty fragment.\<close>

fun split_from :: "pystr \<Rightarrow> pystr \<Rightarrow> pystr list" where
  "split_from cur [] = (if cur = [] then [] else [cur])"
| "split_from cur (c # cs) =
     (if is_space c then (if cur = [] then split_from [] cs else cur # split_from [] cs)
      else split_from (cur @ [c]) cs)"

definition str_split :: "pystr \<Rightarrow> pystr list" where
  "str_split s = split_from [] s"

text \<open>\<open>s.strip()\<close>: whitespace removed at both ends; \<open>s.rstrip()\<close>: at the end only.\<close>

definition str_lstrip :: "pystr \<Rightarrow> pystr" where
  "str_lstrip s = dropWhile is_space s"

definition str_rstrip :: "pystr \<Rightarrow> pystr" where
  "str_rstrip s = rev (dropWhile is_space (rev s))"

definition str_strip :: "pystr \<Rightarrow> pystr" where
  "str_strip s = str_rstrip (str_lstrip s)"

text \<open>\<open>sep.join(xs)\<close>\<close>

fun str_join :: "pystr \<Rightarrow> pystr list \<Rightarrow> pystr" where
  "str_join sep [] = []"
| "str_join sep [x] = x"
| "str_join sep (x # y # ys) = x @ sep @ str_join sep (y # ys)"

section \<open>The regular expression of the tokenizer\<close>

text \<open>
  Both \<open>re.sub\<close> calls use one pattern, a single character class, after Python's string
  escapes: \<^verbatim>\<open>[1234567890qwertyuiopasdfghjklzxcvbnm!@#$--,.?\<close> then the not sign (172), then
  the escaped \<^verbatim>\<open>\]\[\'\"\<close> and the closing bracket. Inside a class \<^verbatim>\<open>$--\<close> is the range from
  \<^verbatim>\<open>$\<close> (36) to \<^verbatim>\<open>-\<close> (45). The items below are the class, in the order of the pattern.
\<close>

datatype class_item = Lit pychar | Range pychar pychar

fun item_matches :: "class_item \<Rightarrow> pychar \<Rightarrow> bool" where
  "item_matches (Lit x) c = (c = x)"
| "item_matches (Range lo hi) c = (lo \<le> c \<and> c \<le> hi)"

definition noise_class :: "class_item list" where
  "noise_class =
     map Lit [49, 50, 51, 52, 53, 54, 55, 56, 57, 48]
     @ map Lit [113, 119, 101, 114, 116, 121, 117, 105, 111, 112,
                97, 115, 100, 102, 103, 104, 106, 107, 108,
                122, 120, 99, 118, 98, 110, 109]
     @ [Lit 33, Lit 64, Lit 35, Range 36 45, Lit 44, Lit 46, Lit 63, Lit 172,
        Lit 93, Lit 91, Lit 39, Lit 34]"

definition class_matches :: "class_item list \<Rightarrow> pychar \<Rightarrow> bool" where
  "class_matches items c = list_ex (\<lambda>it. item_matches it c) items"

text \<open>\<open>re.sub(class, ' ', s)\<close>: every character of the class becomes one space (32).\<close>

definition re_sub_class :: "class_item list \<Rightarrow> pystr \<Rightarrow> pystr" where
  "re_sub_class items s = map (\<lambda>c. if class_matches items c then 32 else c) s"

text \<open>The expression \<open>re.sub(..., ' ', string.lower()).split()\<close> of lines 49 and 109.\<close>

definition tokenize :: "pystr \<Rightarrow> pystr list" where
  "tokenize s = str_split (re_sub_class noise_class (str_lower s))"

section \<open>Loading the word list\<close>

text \<open>
  \<open>_load_russian_dictionary\<close>, from the lines of the file (each with its line end).
  The marker \<^verbatim>\<open>-\<close> is code point 45.
\<close>

definition load_line :: "(pystr, int) pydict \<Rightarrow> pystr \<Rightarrow> (pystr, int) pydict" where
  "load_line d line =
     (let word = str_strip line in
      if word \<noteq> [] \<and> hd word = 45 then dict_setitem d (tl word) 1
      else dict_setitem d word 1)"

definition load_russian_dictionary :: "pystr list \<Rightarrow> (pystr, int) pydict" where
  "load_russian_dictionary lines = foldl load_line [] lines"

section \<open>Building the lexicon\<close>

text \<open>Lines 47 to 52 of \<open>_process_training_data\<close>: the frequency table.\<close>

definition count_word :: "(pystr, int) pydict \<Rightarrow> pystr \<Rightarrow> (pystr, int) pydict" where
  "count_word buf word = dict_setitem buf word (dict_get buf word 0 + 1)"

definition count_string :: "(pystr, int) pydict \<Rightarrow> pystr \<Rightarrow> (pystr, int) pydict" where
  "count_string buf string = foldl count_word buf (tokenize string)"

definition count_corpus :: "pystr list \<Rightarrow> (pystr, int) pydict" where
  "count_corpus train_correct = foldl count_string [] train_correct"

text \<open>
  The condition of lines 58 and 59, with Python's short-circuit evaluation: the count
  \<open>buf_dictionary[word]\<close> is read only where \<open>and\<close> and \<open>or\<close> reach it.
\<close>

definition critical :: int where
  "critical = 5"

definition short_rule ::
  "(pystr, int) pydict \<Rightarrow> (pystr, int) pydict \<Rightarrow> pystr \<Rightarrow> py_error + bool" where
  "short_rule full buf word =
     (if length word < 4 then
        (case dict_getitem buf word of
           Inl e \<Rightarrow> Inl e
         | Inr c \<Rightarrow> if c < 50 then Inr (\<not> dict_contains full word) else Inr False)
      else Inr False)"

definition drop_condition ::
  "(pystr, int) pydict \<Rightarrow> (pystr, int) pydict \<Rightarrow> pystr \<Rightarrow> py_error + bool" where
  "drop_condition full buf word =
     (if \<not> dict_contains full word then
        (case dict_getitem buf word of
           Inl e \<Rightarrow> Inl e
         | Inr c \<Rightarrow> if c < critical then Inr True else short_rule full buf word)
      else short_rule full buf word)"

text \<open>Lines 57 to 60: the loop over the keys of \<open>buf_dictionary\<close>, popping from the copy.\<close>

fun filter_loop ::
  "(pystr, int) pydict \<Rightarrow> (pystr, int) pydict \<Rightarrow> pystr list \<Rightarrow> (pystr, int) pydict
   \<Rightarrow> py_error + (pystr, int) pydict" where
  "filter_loop full buf [] dictionary = Inr dictionary"
| "filter_loop full buf (word # ws) dictionary =
     (case drop_condition full buf word of
        Inl e \<Rightarrow> Inl e
      | Inr True \<Rightarrow> filter_loop full buf ws (dict_pop dictionary word)
      | Inr False \<Rightarrow> filter_loop full buf ws dictionary)"

definition filter_dictionary ::
  "(pystr, int) pydict \<Rightarrow> (pystr, int) pydict \<Rightarrow> py_error + (pystr, int) pydict" where
  "filter_dictionary full buf = filter_loop full buf (dict_keys buf) buf"

text \<open>\<open>_process_training_data\<close>, from the column \<open>correct_text\<close> as a list of strings.\<close>

definition process_training_data ::
  "(pystr, int) pydict \<Rightarrow> pystr list \<Rightarrow> py_error + (pystr, int) pydict" where
  "process_training_data full train_correct =
     (case filter_dictionary full (count_corpus train_correct) of
        Inl e \<Rightarrow> Inl e
      | Inr dictionary \<Rightarrow> Inr (dict_setitem dictionary [] 1))"

text \<open>The table of lines 24 to 28, as pairs of one-letter strings.\<close>

definition sonority_table :: "(pystr, pystr) pydict" where
  "sonority_table =
     [([1073], [1087]), ([1074], [1092]), ([1075], [1082]), ([1076], [1090]),
      ([1078], [1096]), ([1079], [1089]), ([1087], [1073]), ([1092], [1074]),
      ([1082], [1075]), ([1090], [1076]), ([1096], [1078]), ([1089], [1079])]"

text \<open>\<open>__init__\<close>, from the lines of the word list and the training column.\<close>

definition init :: "pystr list \<Rightarrow> pystr list \<Rightarrow> py_error + SentenceCorrector" where
  "init dictionary_lines train_correct =
     (let full = load_russian_dictionary dictionary_lines in
      case process_training_data full train_correct of
        Inl e \<Rightarrow> Inl e
      | Inr td \<Rightarrow> Inr \<lparr>dict_full = full, train_dict = td, sonority = sonority_table\<rparr>)"

section \<open>Nearest word\<close>

text \<open>
  Modelled from the spec: \<open>Levenshtein.distance\<close> of the external library, the classic
  edit distance in which an insertion, a deletion and a substitution cost 1 each and
  there is no transposition.
\<close>

fun levenshtein :: "pystr \<Rightarrow> pystr \<Rightarrow> nat" where
  "levenshtein [] ys = length ys"
| "levenshtein (x # xs) [] = length (x # xs)"
| "levenshtein (x # xs) (y # ys) =
     min (min (levenshtein xs (y # ys) + 1) (levenshtein (x # xs) ys + 1))
         (levenshtein xs ys + (if x = y then 0 else 1))"

text \<open>
  What unit-cost editing means, independently of the recursion: \<open>edits xs ys n\<close> holds
  when \<open>xs\<close> becomes \<open>ys\<close> by keeping characters and \<open>n\<close> single-character deletions,
  insertions and substitutions.
\<close>

inductive edits :: "pystr \<Rightarrow> pystr \<Rightarrow> nat \<Rightarrow> bool" where
  edits_Nil: "edits [] [] 0"
| edits_keep: "edits xs ys n \<Longrightarrow> edits (x # xs) (x # ys) n"
| edits_subst: "edits xs ys n \<Longrightarrow> edits (x # xs) (y # ys) (Suc n)"
| edits_delete: "edits xs ys n \<Longrightarrow> edits (x # xs) ys (Suc n)"
| edits_insert: "edits xs ys n \<Longrightarrow> edits xs (y # ys) (Suc n)"

definition levenshtein_distance :: "SentenceCorrector \<Rightarrow> pystr \<Rightarrow> pystr \<Rightarrow> nat" where
  "levenshtein_distance self word1 word2 = levenshtein word1 word2"

text \<open>
  The loop of lines 85 to 91 on the state \<open>(min_dist, closest_words)\<close>; \<open>float('inf')\<close>
  is \<open>\<infinity>\<close>.
\<close>

fun closest_loop ::
  "SentenceCorrector \<Rightarrow> pystr \<Rightarrow> pystr list \<Rightarrow> enat \<times> pystr list \<Rightarrow> enat \<times> pystr list" where
  "closest_loop self word [] st = st"
| "closest_loop self word (dict_word # rest) (min_dist, closest_words) =
     (let dist = levenshtein_distance self word dict_word in
      if enat dist < min_dist then closest_loop self word rest (enat dist, [dict_word])
      else if enat dist = min_dist
        then closest_loop self word rest (min_dist, closest_words @ [dict_word])
      else closest_loop self word rest (min_dist, closest_words))"

text \<open>
  \<open>max(xs, key=f)\<close>: ValueError on an empty argument; otherwise the first element is
  the candidate and a later one replaces it only when its key is strictly greater.
\<close>

fun max_loop :: "('a \<Rightarrow> py_error + int) \<Rightarrow> 'a \<Rightarrow> int \<Rightarrow> 'a list \<Rightarrow> py_error + 'a" where
  "max_loop f mi mv [] = Inr mi"
| "max_loop f mi mv (x # xs) =
     (case f x of
        Inl e \<Rightarrow> Inl e
      | Inr v \<Rightarrow> if v > mv then max_loop f x v xs else max_loop f mi mv xs)"

definition py_max :: "('a \<Rightarrow> py_error + int) \<Rightarrow> 'a list \<Rightarrow> py_error + 'a" where
  "py_max f xs =
     (case xs of
        [] \<Rightarrow> Inl ValueError
      | x # rest \<Rightarrow> (case f x of Inl e \<Rightarrow> Inl e | Inr v \<Rightarrow> max_loop f x v rest))"

text \<open>\<open>_find_closest_word\<close>\<close>

definition find_closest_word :: "SentenceCorrector \<Rightarrow> pystr \<Rightarrow> py_error + pystr" where
  "find_closest_word self word =
     (if dict_contains (train_dict self) word then Inr word
      else
        (case closest_loop self word (dict_keys (train_dict self)) (\<infinity>, []) of
           (min_dist, closest_words) \<Rightarrow>
             if closest_words = [] then Inr word
             else py_max (\<lambda>x. dict_getitem (train_dict self) x) closest_words))"

section \<open>Correcting a sentence\<close>

text \<open>The loop of lines 112 to 118, appending to \<open>corrected_words\<close>.\<close>

fun correct_loop ::
  "SentenceCorrector \<Rightarrow> pystr list \<Rightarrow> pystr list \<Rightarrow> py_error + pystr list" where
  "correct_loop self [] corrected_words = Inr corrected_words"
| "correct_loop self (word # ws) corrected_words =
     (if dict_contains (train_dict self) word
        then correct_loop self ws (corrected_words @ [word])
      else
        (case find_closest_word self word of
           Inl e \<Rightarrow> Inl e
         | Inr corrected_word \<Rightarrow> correct_loop self ws (corrected_words @ [corrected_word])))"

definition correct_sentence :: "SentenceCorrector \<Rightarrow> pystr \<Rightarrow> py_error + pystr" where
  "correct_sentence self sentence =
     (case correct_loop self (tokenize sentence) [] of
        Inl e \<Rightarrow> Inl e
      | Inr corrected_words \<Rightarrow> Inr (str_join [32] corrected_words))"

section \<open>The loader and the noise class as the specification words them\<close>

text \<open>
  The specification of the loader trims the end of the line only, so that leading
  whitespace stays. This second definition follows those words; it is compared with
  \<open>load_line\<close> above, which follows the source.
\<close>

definition spec_load_line :: "(pystr, int) pydict \<Rightarrow> pystr \<Rightarrow> (pystr, int) pydict" where
  "spec_load_line d line =
     (let word = str_rstrip line in
      if word \<noteq> [] \<and> hd word = 45 then dict_setitem d (tl word) 1
      else dict_setitem d word 1)"

text \<open>
  The noise class as the specification lists it: the digits, the letters a to z and
  the thirteen punctuation characters, each a literal.
\<close>

definition spec_noise_class :: "class_item list" where
  "spec_noise_class =
     [Range 48 57, Range 97 122, Lit 33, Lit 64, Lit 35, Lit 36, Lit 45, Lit 44, Lit 46,
      Lit 63, Lit 172, Lit 93, Lit 91, Lit 39, Lit 34]"

definition spec_tokenize :: "pystr \<Rightarrow> pystr list" where
  "spec_tokenize s = str_split (re_sub_class spec_noise_class (str_lower s))"

section \<open>Example data\<close>

text \<open>
  The words of the examples, transliterated: khorosho (good), plokho (bad), kharasho
  (the misspelling), stol, okno, dom, privet, kak, dela, u, menya, vsyo, ya, kot.
\<close>

definition word_khorosho :: pystr where
  "word_khorosho = [1093, 1086, 1088, 1086, 1096, 1086]"

definition word_plokho :: pystr where
  "word_plokho = [1087, 1083, 1086, 1093, 1086]"

definition word_kharasho :: pystr where
  "word_kharasho = [1093, 1072, 1088, 1072, 1096, 1086]"

definition word_stol :: pystr where
  "word_stol = [1089, 1090, 1086, 1083]"

definition word_okno :: pystr where
  "word_okno = [1086, 1082, 1085, 1086]"

definition word_dom :: pystr where
  "word_dom = [1076, 1086, 1084]"

definition word_privet :: pystr where
  "word_privet = [1087, 1088, 1080, 1074, 1077, 1090]"

definition word_kak :: pystr where
  "word_kak = [1082, 1072, 1082]"

definition word_dela :: pystr where
  "word_dela = [1076, 1077, 1083, 1072]"

definition word_u :: pystr where
  "word_u = [1091]"

definition word_menya :: pystr where
  "word_menya = [1084, 1077, 1085, 1103]"

definition word_vsyo :: pystr where
  "word_vsyo = [1074, 1089, 1105]"

definition word_ya :: pystr where
  "word_ya = [1103]"

definition word_kot :: pystr where
  "word_kot = [1082, 1086, 1090]"

text \<open>The lexicon of the frequency tie-break example: khorosho 10, plokho 5.\<close>

definition tie_break_corrector :: SentenceCorrector where
  "tie_break_corrector =
     \<lparr>dict_full = [], train_dict = [(word_khorosho, 10), (word_plokho, 5)],
      sonority = sonority_table\<rparr>"

text \<open>Two keys at the same distance from \<open>kot\<close> (kom 3, kod 7), and the sentinel.\<close>

definition equal_distance_corrector :: SentenceCorrector where
  "equal_distance_corrector =
     \<lparr>dict_full = [],
      train_dict = [([1082, 1086, 1084], 3), ([1082, 1086, 1076], 7), ([], 1)],
      sonority = sonority_table\<rparr>"

text \<open>The token counts of the filtering example: stol 3, okno 60, dom 5.\<close>

definition example_counts :: "(pystr, int) pydict" where
  "example_counts = [(word_stol, 3), (word_okno, 60), (word_dom, 5)]"

text \<open>A lexicon with one word and the sentinel, and the sentence \<open>privet ya privet\<close>.\<close>

definition sentinel_corrector :: SentenceCorrector where
  "sentinel_corrector =
     \<lparr>dict_full = [], train_dict = [(word_privet, 10), ([], 1)],
      sonority = sonority_table\<rparr>"

definition sentence_privet_ya_privet :: pystr where
  "sentence_privet_ya_privet = word_privet @ [32] @ word_ya @ [32] @ word_privet"

text \<open>
  The sentence of the demo, \<open>Privet, kak dela? U menya vsyo kharasho!\<close> (with capital
  letters 1055 and 1059), and a lexicon with its seven correct words.
\<close>

definition greeting_corrector :: SentenceCorrector where
  "greeting_corrector =
     \<lparr>dict_full = [],
      train_dict = [(word_privet, 9), (word_kak, 8), (word_dela, 7), (word_u, 60),
                    (word_menya, 6), (word_vsyo, 50), (word_khorosho, 10), ([], 1)],
      sonority = sonority_table\<rparr>"

definition sentence_greeting :: pystr where
  "sentence_greeting =
     [1055, 1088, 1080, 1074, 1077, 1090, 44, 32] @ word_kak @ [32] @ word_dela
     @ [63, 32, 1059, 32] @ word_menya @ [32] @ word_vsyo @ [32] @ word_kharasho @ [33]"

text \<open>A word-list line with two leading spaces and a line end, and one with the marker.\<close>

definition line_indented_kot :: pystr where
  "line_indented_kot = [32, 32] @ word_kot @ [10]"

definition line_marked_kot :: pystr where
  "line_marked_kot = [45] @ word_kot @ [10]"

text \<open>The text \<open>da+net\<close>, with a plus sign (43) between two Cyrillic words.\<close>

definition text_da_plus_net :: pystr where
  "text_da_plus_net = [1076, 1072, 43, 1085, 1077, 1090]"

section \<open>The edit distance is the least number of edits\<close>

lemma edits_from_Nil: "edits [] ys (length ys)"
  by (induction ys) (auto intro: edits.intros)

lemma edits_to_Nil: "edits xs [] (length xs)"
  by (induction xs) (auto intro: edits.intros)

lemma levenshtein_edits: "edits xs ys (levenshtein xs ys)"
proof (induction xs ys rule: levenshtein.induct)
  case (1 ys)
  show ?case by (simp add: edits_from_Nil)
next
  case (2 x xs)
  show ?case using edits_to_Nil [of "x # xs"] by simp
next
  case (3 x xs y ys)
  let ?a = "levenshtein xs (y # ys) + 1"
  let ?b = "levenshtein (x # xs) ys + 1"
  let ?c = "levenshtein xs ys + (if x = y then 0 else 1)"
  have a: "edits (x # xs) (y # ys) ?a"
    using "3.IH"(1) by (auto intro: edits_delete)
  have b: "edits (x # xs) (y # ys) ?b"
    using "3.IH"(2) by (auto intro: edits_insert)
  have c: "edits (x # xs) (y # ys) ?c"
    using "3.IH"(3) by (auto intro: edits_keep edits_subst)
  have "levenshtein (x # xs) (y # ys) = ?a \<or> levenshtein (x # xs) (y # ys) = ?b
        \<or> levenshtein (x # xs) (y # ys) = ?c"
    by (simp add: min_def)
  with a b c show ?case by metis
qed

lemma levenshtein_Nil_right: "levenshtein xs [] = length xs"
  by (cases xs) simp_all

lemma levenshtein_delete_le: "levenshtein (x # xs) ys \<le> Suc (levenshtein xs ys)"
  by (cases ys) (simp_all add: levenshtein_Nil_right)

lemma levenshtein_insert_le: "levenshtein xs (y # ys) \<le> Suc (levenshtein xs ys)"
  by (cases xs) simp_all

lemma levenshtein_subst_le: "levenshtein (x # xs) (y # ys) \<le> Suc (levenshtein xs ys)"
  by (simp add: min.coboundedI2)

lemma levenshtein_keep_le: "levenshtein (x # xs) (x # ys) \<le> levenshtein xs ys"
  by simp

lemma edits_levenshtein: "edits xs ys n \<Longrightarrow> levenshtein xs ys \<le> n"
proof (induction rule: edits.induct)
  case edits_Nil
  show ?case by simp
next
  case (edits_keep xs ys n x)
  then show ?case using levenshtein_keep_le [of x xs ys] by linarith
next
  case (edits_subst xs ys n x y)
  then show ?case using levenshtein_subst_le [of x xs y ys] by linarith
next
  case (edits_delete xs ys n x)
  then show ?case using levenshtein_delete_le [of x xs ys] by linarith
next
  case (edits_insert xs ys n y)
  then show ?case using levenshtein_insert_le [of xs y ys] by linarith
qed

lemma levenshtein_least: "levenshtein xs ys = (LEAST n. edits xs ys n)"
  by (rule Least_equality [symmetric]) (auto intro: levenshtein_edits edits_levenshtein)

subsection \<open>The search loop\<close>

lemma closest_loop_fst_le: "fst (closest_loop self w ks (m, cw)) \<le> m"
proof (induction ks arbitrary: m cw)
  case Nil
  show ?case by simp
next
  case (Cons k ks)
  show ?case
    using Cons.IH [of "enat (levenshtein w k)" "[k]"] Cons.IH [of m "cw @ [k]"] Cons.IH [of m cw]
    by (auto simp: levenshtein_distance_def Let_def)
qed

lemma closest_loop_fst_lower:
  "k \<in> set ks \<Longrightarrow> fst (closest_loop self w ks (m, cw)) \<le> enat (levenshtein w k)"
proof (induction ks arbitrary: m cw)
  case Nil
  then show ?case by simp
next
  case (Cons a ks)
  show ?case
  proof (cases "k = a")
    case True
    have "fst (closest_loop self w (a # ks) (m, cw)) \<le> enat (levenshtein w a)"
      using closest_loop_fst_le [of self w ks "enat (levenshtein w a)" "[a]"]
        closest_loop_fst_le [of self w ks m "cw @ [a]"]
        closest_loop_fst_le [of self w ks m cw]
      by (auto simp: levenshtein_distance_def Let_def)
    with True show ?thesis by simp
  next
    case False
    with Cons.prems have "k \<in> set ks" by simp
    then show ?thesis
      using Cons.IH by (simp add: levenshtein_distance_def Let_def)
  qed
qed

lemma closest_loop_fst_attained:
  "fst (closest_loop self w ks (m, cw)) = m
   \<or> (\<exists>k\<in>set ks. fst (closest_loop self w ks (m, cw)) = enat (levenshtein w k))"
proof (induction ks arbitrary: m cw)
  case Nil
  show ?case by simp
next
  case (Cons a ks)
  show ?case
    using Cons.IH [of "enat (levenshtein w a)" "[a]"] Cons.IH [of m "cw @ [a]"] Cons.IH [of m cw]
    by (auto simp: levenshtein_distance_def Let_def)
qed

lemma closest_loop_snd:
  "snd (closest_loop self w ks (m, cw)) =
     (if fst (closest_loop self w ks (m, cw)) = m then cw else [])
     @ filter (\<lambda>k. enat (levenshtein w k) = fst (closest_loop self w ks (m, cw))) ks"
proof (induction ks arbitrary: m cw)
  case Nil
  show ?case by simp
next
  case (Cons a ks)
  let ?d = "enat (levenshtein w a)"
  consider (less) "?d < m" | (eq) "?d = m" | (greater) "m < ?d"
    by (metis linorder_less_linear)
  then show ?case
  proof cases
    case less
    have step: "closest_loop self w (a # ks) (m, cw) = closest_loop self w ks (?d, [a])"
      using less by (simp add: levenshtein_distance_def)
    have "fst (closest_loop self w ks (?d, [a])) \<le> ?d"
      by (rule closest_loop_fst_le)
    with less have ne: "fst (closest_loop self w ks (?d, [a])) \<noteq> m" by auto
    show ?thesis
      unfolding step using ne Cons.IH [of ?d "[a]"] by auto
  next
    case eq
    have step: "closest_loop self w (a # ks) (m, cw) = closest_loop self w ks (m, cw @ [a])"
      using eq by (simp add: levenshtein_distance_def)
    show ?thesis
      unfolding step using eq Cons.IH [of m "cw @ [a]"] by auto
  next
    case greater
    have "\<not> ?d < m" and "?d \<noteq> m"
      using greater by auto
    then have step: "closest_loop self w (a # ks) (m, cw) = closest_loop self w ks (m, cw)"
      by (simp add: levenshtein_distance_def)
    have "fst (closest_loop self w ks (m, cw)) \<le> m"
      by (rule closest_loop_fst_le)
    with greater have ne: "?d \<noteq> fst (closest_loop self w ks (m, cw))" by auto
    show ?thesis
      unfolding step using ne Cons.IH [of m cw] by auto
  qed
qed

text \<open>From the initial state: the minimum over the keys and the keys that reach it.\<close>

lemma closest_loop_init:
  assumes "ks \<noteq> []"
  shows "\<exists>k0\<in>set ks. closest_loop self w ks (\<infinity>, []) =
           (enat (levenshtein w k0), filter (\<lambda>k. levenshtein w k = levenshtein w k0) ks)
         \<and> (\<forall>k\<in>set ks. levenshtein w k0 \<le> levenshtein w k)"
proof -
  let ?r = "closest_loop self w ks (\<infinity>, [])"
  from assms obtain a where a: "a \<in> set ks" by (cases ks) auto
  have "fst ?r \<le> enat (levenshtein w a)"
    using a by (rule closest_loop_fst_lower)
  then have "fst ?r \<noteq> \<infinity>" by (auto dest: enat_ile)
  with closest_loop_fst_attained [of self w ks \<infinity> "[]"]
  obtain k0 where k0: "k0 \<in> set ks" "fst ?r = enat (levenshtein w k0)" by auto
  have low: "\<forall>k\<in>set ks. levenshtein w k0 \<le> levenshtein w k"
    using closest_loop_fst_lower [of _ ks self w \<infinity> "[]"] k0(2) by auto
  have "snd ?r = filter (\<lambda>k. levenshtein w k = levenshtein w k0) ks"
    using closest_loop_snd [of self w ks \<infinity> "[]"] k0(2) by simp
  with k0 low show ?thesis
    by (metis prod.collapse)
qed

subsection \<open>max with a key\<close>

lemma max_loop_first:
  assumes "\<forall>x\<in>set xs. f x = Inr (g x)"
  shows "\<exists>pre r post. max_loop f mi (g mi) xs = Inr r \<and> mi # xs = pre @ r # post
           \<and> (\<forall>y\<in>set pre. g y < g r) \<and> (\<forall>y\<in>set post. g y \<le> g r)"
  using assms
proof (induction xs arbitrary: mi)
  case Nil
  have "max_loop f mi (g mi) [] = Inr mi \<and> [mi] = [] @ mi # []" by simp
  then show ?case by fastforce
next
  case (Cons x xs)
  have fx: "f x = Inr (g x)" and rest: "\<forall>y\<in>set xs. f y = Inr (g y)"
    using Cons.prems by simp_all
  show ?case
  proof (cases "g x > g mi")
    case True
    from Cons.IH [OF rest, of x] obtain pre r post where
      r: "max_loop f x (g x) xs = Inr r" "x # xs = pre @ r # post"
         "\<forall>y\<in>set pre. g y < g r" "\<forall>y\<in>set post. g y \<le> g r"
      by blast
    have "g x \<le> g r"
    proof (cases pre)
      case Nil
      with r(2) show ?thesis by simp
    next
      case (Cons p ps)
      with r(2) have "x \<in> set pre" by simp
      with r(3) show ?thesis by auto
    qed
    with True have "g mi < g r" by simp
    with r(3) have s1: "\<forall>y\<in>set (mi # pre). g y < g r" by simp
    have s2: "max_loop f mi (g mi) (x # xs) = Inr r"
      using fx True r(1) by simp
    have s3: "mi # x # xs = (mi # pre) @ r # post"
      using r(2) by simp
    from s1 s2 s3 r(4) show ?thesis by blast
  next
    case False
    from Cons.IH [OF rest, of mi] obtain pre r post where
      r: "max_loop f mi (g mi) xs = Inr r" "mi # xs = pre @ r # post"
         "\<forall>y\<in>set pre. g y < g r" "\<forall>y\<in>set post. g y \<le> g r"
      by blast
    have step: "max_loop f mi (g mi) (x # xs) = Inr r"
      using fx False r(1) by simp
    show ?thesis
    proof (cases pre)
      case Nil
      with r(2) have "r = mi" "post = xs" by simp_all
      with r(4) False have "mi # x # xs = [] @ r # (x # post)
          \<and> (\<forall>y\<in>set (x # post). g y \<le> g r)"
        by auto
      with step show ?thesis by fastforce
    next
      case (Cons p ps)
      with r(2) have p: "p = mi" "xs = ps @ r # post" by simp_all
      have "g mi < g r" using r(3) Cons p(1) by simp
      with False have "g x < g r" by simp
      with r(3) Cons p have "mi # x # xs = (mi # x # ps) @ r # post
          \<and> (\<forall>y\<in>set (mi # x # ps). g y < g r)"
        by auto
      with step r(4) show ?thesis by blast
    qed
  qed
qed


subsection \<open>Dictionaries\<close>

lemma dict_getitem_key:
  "k \<in> set (dict_keys d) \<Longrightarrow> dict_getitem d k = Inr (dict_get d k dflt)"
proof -
  assume "k \<in> set (dict_keys d)"
  then have "map_of d k \<noteq> None"
    by (simp add: dict_keys_def map_of_eq_None_iff)
  then show ?thesis
    by (auto simp: dict_getitem_def dict_get_def)
qed

lemma filter_split_at:
  "filter P xs = pre @ r # post \<Longrightarrow>
     \<exists>us vs. xs = us @ r # vs \<and> filter P us = pre \<and> filter P vs = post \<and> P r"
proof (induction xs arbitrary: pre)
  case Nil
  then show ?case by simp
next
  case (Cons a xs)
  show ?case
  proof (cases "P a")
    case False
    with Cons.prems have "filter P xs = pre @ r # post" by simp
    from Cons.IH [OF this] obtain us vs where
      "xs = us @ r # vs" "filter P us = pre" "filter P vs = post" "P r" by blast
    with False have "a # xs = (a # us) @ r # vs \<and> filter P (a # us) = pre
        \<and> filter P vs = post \<and> P r" by simp
    then show ?thesis by blast
  next
    case True
    with Cons.prems have eq: "a # filter P xs = pre @ r # post" by simp
    show ?thesis
    proof (cases pre)
      case Nil
      with eq have "a = r" "filter P xs = post" by simp_all
      with True have "a # xs = [] @ r # xs \<and> filter P [] = [] \<and> filter P xs = post \<and> P r"
        by simp
      with Nil show ?thesis by blast
    next
      case (Cons p ps)
      with eq have p: "a = p" "filter P xs = ps @ r # post" by simp_all
      from Cons.IH [OF p(2)] obtain us vs where
        uv: "xs = us @ r # vs" "filter P us = ps" "filter P vs = post" "P r" by blast
      with True p(1) Cons have "a # xs = (a # us) @ r # vs \<and> filter P (a # us) = pre
          \<and> filter P vs = post \<and> P r" by simp
      then show ?thesis by blast
    qed
  qed
qed

subsection \<open>The result of the search\<close>

lemma find_closest_word_search:
  assumes notkey: "\<not> dict_contains (train_dict self) w"
    and nonempty: "train_dict self \<noteq> []"
  shows "\<exists>pre k post. find_closest_word self w = Inr k
           \<and> dict_keys (train_dict self) = pre @ k # post
           \<and> (\<forall>k'\<in>set (dict_keys (train_dict self)). levenshtein w k \<le> levenshtein w k')
           \<and> (\<forall>k'\<in>set pre. levenshtein w k' = levenshtein w k \<longrightarrow>
                  dict_get (train_dict self) k' 0 < dict_get (train_dict self) k 0)
           \<and> (\<forall>k'\<in>set post. levenshtein w k' = levenshtein w k \<longrightarrow>
                  dict_get (train_dict self) k' 0 \<le> dict_get (train_dict self) k 0)"
proof -
  let ?d = "train_dict self"
  let ?ks = "dict_keys ?d"
  let ?g = "\<lambda>k. dict_get ?d k 0"
  have ks: "?ks \<noteq> []" using nonempty by (simp add: dict_keys_def)
  from closest_loop_init [OF ks, of self w] obtain k0 where
    k0: "k0 \<in> set ?ks"
    and loop: "closest_loop self w ?ks (\<infinity>, []) =
           (enat (levenshtein w k0), filter (\<lambda>k. levenshtein w k = levenshtein w k0) ?ks)"
    and low: "\<forall>k\<in>set ?ks. levenshtein w k0 \<le> levenshtein w k"
    by blast
  let ?Q = "\<lambda>k. levenshtein w k = levenshtein w k0"
  let ?cw = "filter ?Q ?ks"
  have "k0 \<in> set ?cw" using k0 by simp
  then obtain c cs where cw: "?cw = c # cs" by (cases ?cw) auto
  have keys: "\<forall>x\<in>set (c # cs). dict_getitem ?d x = Inr (?g x)"
  proof
    fix x assume "x \<in> set (c # cs)"
    then have "x \<in> set ?cw" using cw by simp
    then have "x \<in> set ?ks" by simp
    then show "dict_getitem ?d x = Inr (?g x)" by (rule dict_getitem_key)
  qed
  then have rest: "\<forall>x\<in>set cs. dict_getitem ?d x = Inr (?g x)" by simp
  have res: "find_closest_word self w = max_loop (dict_getitem ?d) c (?g c) cs"
    using notkey loop cw keys by (simp add: find_closest_word_def py_max_def)
  from max_loop_first [OF rest, of c] obtain pre r post where
    r: "max_loop (dict_getitem ?d) c (?g c) cs = Inr r" "c # cs = pre @ r # post"
       "\<forall>y\<in>set pre. ?g y < ?g r" "\<forall>y\<in>set post. ?g y \<le> ?g r"
    by blast
  have "?cw = pre @ r # post" using cw r(2) by simp
  from filter_split_at [OF this] obtain us vs where
    uv: "?ks = us @ r # vs" "filter ?Q us = pre" "filter ?Q vs = post" "?Q r"
    by blast
  have dist: "levenshtein w r = levenshtein w k0" using uv(4) .
  have a: "find_closest_word self w = Inr r" using res r(1) by simp
  have b: "\<forall>k'\<in>set ?ks. levenshtein w r \<le> levenshtein w k'"
    using low dist by simp
  have c: "\<forall>k'\<in>set us. levenshtein w k' = levenshtein w r \<longrightarrow> ?g k' < ?g r"
  proof (intro ballI impI)
    fix k' assume "k' \<in> set us" "levenshtein w k' = levenshtein w r"
    then have "k' \<in> set (filter ?Q us)" using dist by simp
    then show "?g k' < ?g r" using uv(2) r(3) by simp
  qed
  have d: "\<forall>k'\<in>set vs. levenshtein w k' = levenshtein w r \<longrightarrow> ?g k' \<le> ?g r"
  proof (intro ballI impI)
    fix k' assume "k' \<in> set vs" "levenshtein w k' = levenshtein w r"
    then have "k' \<in> set (filter ?Q vs)" using dist by simp
    then show "?g k' \<le> ?g r" using uv(3) r(4) by simp
  qed
  from a uv(1) b c d show ?thesis by blast
qed

lemma find_closest_word_empty:
  "train_dict self = [] \<Longrightarrow> find_closest_word self w = Inr w"
  by (simp add: find_closest_word_def dict_keys_def)

lemma find_closest_word_key:
  "dict_contains (train_dict self) w \<Longrightarrow> find_closest_word self w = Inr w"
  by (simp add: find_closest_word_def)

lemma find_closest_word_total: "\<exists>k. find_closest_word self w = Inr k"
proof (cases "dict_contains (train_dict self) w")
  case True
  then show ?thesis by (simp add: find_closest_word_key)
next
  case False
  show ?thesis
  proof (cases "train_dict self = []")
    case True
    then show ?thesis by (simp add: find_closest_word_empty)
  next
    case nonempty: False
    from find_closest_word_search [OF False nonempty] show ?thesis by blast
  qed
qed

section \<open>Claims about the nearest-word search\<close>

text \<open>
  Claim C5: for every lexicon and every token \<open>w\<close> that is a key of the lexicon,
  \<open>_find_closest_word\<close> returns \<open>w\<close> unchanged, and applying it again to its result
  returns the same word.
\<close>

theorem find_closest_word_exact_match:
  assumes "dict_contains (train_dict self) w"
  shows "find_closest_word self w = Inr w
         \<and> (\<exists>k. find_closest_word self w = Inr k \<and> find_closest_word self k = Inr k)"
  using assms by (simp add: find_closest_word_def)

theorem find_closest_word_exact_match_witness:
  "dict_contains (train_dict equal_distance_corrector) [1082, 1086, 1076]
   \<and> find_closest_word equal_distance_corrector [1082, 1086, 1076] = Inr [1082, 1086, 1076]"
proof -
  have h: "dict_contains (train_dict equal_distance_corrector) [1082, 1086, 1076]"
    by (simp add: equal_distance_corrector_def dict_contains_def dict_keys_def)
  from find_closest_word_exact_match [OF h] h show ?thesis by blast
qed

text \<open>
  Claim C1: for every non-empty lexicon and every token \<open>w\<close> that is not a key, the word
  returned by \<open>_find_closest_word\<close> is a key whose Levenshtein distance from \<open>w\<close> is
  the minimum over all keys: no key is nearer, the distance is reached by that many
  unit-cost insertions, deletions and substitutions, and no key can be reached from \<open>w\<close>
  with fewer.
\<close>

theorem find_closest_word_minimal_distance:
  assumes "train_dict self \<noteq> []" and "\<not> dict_contains (train_dict self) w"
  shows "\<exists>k. find_closest_word self w = Inr k \<and> dict_contains (train_dict self) k
           \<and> (\<forall>k'. dict_contains (train_dict self) k' \<longrightarrow>
                  levenshtein_distance self w k \<le> levenshtein_distance self w k')
           \<and> edits w k (levenshtein_distance self w k)
           \<and> (\<forall>k' n. dict_contains (train_dict self) k' \<longrightarrow> edits w k' n \<longrightarrow>
                  levenshtein_distance self w k \<le> n)"
proof -
  from find_closest_word_search [OF assms(2) assms(1)] obtain pre k post where
    k: "find_closest_word self w = Inr k" "dict_keys (train_dict self) = pre @ k # post"
       "\<forall>k'\<in>set (dict_keys (train_dict self)). levenshtein w k \<le> levenshtein w k'"
    by blast
  have key: "dict_contains (train_dict self) k"
    using k(2) by (simp add: dict_contains_def)
  have least: "\<forall>k'. dict_contains (train_dict self) k' \<longrightarrow>
      levenshtein_distance self w k \<le> levenshtein_distance self w k'"
    using k(3) by (simp add: dict_contains_def levenshtein_distance_def)
  have reach: "edits w k (levenshtein_distance self w k)"
    by (simp add: levenshtein_distance_def levenshtein_edits)
  have fewer: "\<forall>k' n. dict_contains (train_dict self) k' \<longrightarrow> edits w k' n \<longrightarrow>
      levenshtein_distance self w k \<le> n"
  proof (intro allI impI)
    fix k' n
    assume "dict_contains (train_dict self) k'" and e: "edits w k' n"
    then have "levenshtein_distance self w k \<le> levenshtein_distance self w k'"
      using least by blast
    also have "\<dots> \<le> n"
      using edits_levenshtein [OF e] by (simp add: levenshtein_distance_def)
    finally show "levenshtein_distance self w k \<le> n" .
  qed
  from k(1) key least reach fewer show ?thesis by blast
qed

theorem find_closest_word_minimal_distance_witness:
  "train_dict equal_distance_corrector \<noteq> []
   \<and> \<not> dict_contains (train_dict equal_distance_corrector) word_kot
   \<and> (\<exists>k. find_closest_word equal_distance_corrector word_kot = Inr k
          \<and> dict_contains (train_dict equal_distance_corrector) k
          \<and> levenshtein_distance equal_distance_corrector word_kot k
              \<le> levenshtein_distance equal_distance_corrector word_kot [])"
proof -
  have h1: "train_dict equal_distance_corrector \<noteq> []"
    by (simp add: equal_distance_corrector_def)
  have h2: "\<not> dict_contains (train_dict equal_distance_corrector) word_kot"
    by (simp add: equal_distance_corrector_def dict_contains_def dict_keys_def word_kot_def)
  have h3: "dict_contains (train_dict equal_distance_corrector) []"
    by (simp add: equal_distance_corrector_def dict_contains_def dict_keys_def)
  from find_closest_word_minimal_distance [OF h1 h2] h1 h2 h3 show ?thesis by blast
qed

text \<open>
  Claim C2: for every lexicon and every token \<open>w\<close> that is not a key, the word returned
  is, among the keys at the minimum distance from \<open>w\<close>, one of maximal frequency. Which
  one is fixed by the lexicon: the first such key in its insertion order, every earlier
  key at the minimum distance having a strictly smaller frequency. (A lexicon without
  keys has no such set, and the token itself is returned.) For the lexicon with khorosho
  at 10 and plokho at 5, the distances from kharasho are 2 and 5 and the result is
  khorosho.
\<close>

theorem find_closest_word_highest_frequency:
  "(\<not> dict_contains (train_dict self) w \<longrightarrow>
      (train_dict self = [] \<longrightarrow> find_closest_word self w = Inr w)
      \<and> (train_dict self \<noteq> [] \<longrightarrow>
           (\<exists>pre k post. find_closest_word self w = Inr k
              \<and> dict_keys (train_dict self) = pre @ k # post
              \<and> (\<forall>k'\<in>set (dict_keys (train_dict self)).
                    levenshtein_distance self w k \<le> levenshtein_distance self w k')
              \<and> (\<forall>k'\<in>set (dict_keys (train_dict self)).
                    levenshtein_distance self w k' = levenshtein_distance self w k \<longrightarrow>
                    dict_get (train_dict self) k' 0 \<le> dict_get (train_dict self) k 0)
              \<and> (\<forall>k'\<in>set pre.
                    levenshtein_distance self w k' = levenshtein_distance self w k \<longrightarrow>
                    dict_get (train_dict self) k' 0 < dict_get (train_dict self) k 0))))
   \<and> levenshtein_distance tie_break_corrector word_kharasho word_khorosho = 2
   \<and> levenshtein_distance tie_break_corrector word_kharasho word_plokho = 5
   \<and> find_closest_word tie_break_corrector word_kharasho = Inr word_khorosho"
proof (intro conjI impI)
  assume "\<not> dict_contains (train_dict self) w" and "train_dict self = []"
  then show "find_closest_word self w = Inr w"
    by (simp add: find_closest_word_empty)
next
  assume notkey: "\<not> dict_contains (train_dict self) w" and nonempty: "train_dict self \<noteq> []"
  let ?d = "train_dict self"
  from find_closest_word_search [OF notkey nonempty] obtain pre k post where
    k: "find_closest_word self w = Inr k" "dict_keys ?d = pre @ k # post"
       "\<forall>k'\<in>set (dict_keys ?d). levenshtein w k \<le> levenshtein w k'"
       "\<forall>k'\<in>set pre. levenshtein w k' = levenshtein w k \<longrightarrow> dict_get ?d k' 0 < dict_get ?d k 0"
       "\<forall>k'\<in>set post. levenshtein w k' = levenshtein w k \<longrightarrow> dict_get ?d k' 0 \<le> dict_get ?d k 0"
    by blast
  have all: "\<forall>k'\<in>set (dict_keys ?d). levenshtein w k' = levenshtein w k \<longrightarrow>
      dict_get ?d k' 0 \<le> dict_get ?d k 0"
  proof (intro ballI impI)
    fix k' assume "k' \<in> set (dict_keys ?d)" and eq: "levenshtein w k' = levenshtein w k"
    then have "k' \<in> set pre \<or> k' = k \<or> k' \<in> set post" using k(2) by auto
    then show "dict_get ?d k' 0 \<le> dict_get ?d k 0"
      using k(4,5) eq by (auto simp: less_imp_le)
  qed
  show "\<exists>pre k post. find_closest_word self w = Inr k
      \<and> dict_keys ?d = pre @ k # post
      \<and> (\<forall>k'\<in>set (dict_keys ?d).
            levenshtein_distance self w k \<le> levenshtein_distance self w k')
      \<and> (\<forall>k'\<in>set (dict_keys ?d).
            levenshtein_distance self w k' = levenshtein_distance self w k \<longrightarrow>
            dict_get ?d k' 0 \<le> dict_get ?d k 0)
      \<and> (\<forall>k'\<in>set pre.
            levenshtein_distance self w k' = levenshtein_distance self w k \<longrightarrow>
            dict_get ?d k' 0 < dict_get ?d k 0)"
    unfolding levenshtein_distance_def using k(1,2,3,4) all by blast
next
  show "levenshtein_distance tie_break_corrector word_kharasho word_khorosho = 2"
    by (simp add: levenshtein_distance_def word_kharasho_def word_khorosho_def)
next
  show "levenshtein_distance tie_break_corrector word_kharasho word_plokho = 5"
    by (simp add: levenshtein_distance_def word_kharasho_def word_plokho_def)
next
  show "find_closest_word tie_break_corrector word_kharasho = Inr word_khorosho"
    by (simp add: tie_break_corrector_def find_closest_word_def dict_contains_def
        dict_keys_def levenshtein_distance_def py_max_def dict_getitem_def
        word_kharasho_def word_khorosho_def word_plokho_def)
qed

theorem find_closest_word_highest_frequency_witness:
  "\<not> dict_contains (train_dict equal_distance_corrector) word_kot
   \<and> train_dict equal_distance_corrector \<noteq> []
   \<and> (\<exists>pre k post. find_closest_word equal_distance_corrector word_kot = Inr k
          \<and> dict_keys (train_dict equal_distance_corrector) = pre @ k # post
          \<and> (\<forall>k'\<in>set pre.
                levenshtein_distance equal_distance_corrector word_kot k'
                  = levenshtein_distance equal_distance_corrector word_kot k \<longrightarrow>
                dict_get (train_dict equal_distance_corrector) k' 0
                  < dict_get (train_dict equal_distance_corrector) k 0))
   \<and> find_closest_word equal_distance_corrector word_kot = Inr [1082, 1086, 1076]"
proof -
  have h1: "\<not> dict_contains (train_dict equal_distance_corrector) word_kot"
    by (simp add: equal_distance_corrector_def dict_contains_def dict_keys_def word_kot_def)
  have h2: "train_dict equal_distance_corrector \<noteq> []"
    by (simp add: equal_distance_corrector_def)
  have h3: "find_closest_word equal_distance_corrector word_kot = Inr [1082, 1086, 1076]"
    by (simp add: equal_distance_corrector_def find_closest_word_def dict_contains_def
        dict_keys_def levenshtein_distance_def py_max_def dict_getitem_def word_kot_def)
  from find_closest_word_highest_frequency [of equal_distance_corrector word_kot] h1 h2 h3
  show ?thesis by blast
qed

subsection \<open>Evaluating the examples\<close>

lemmas example_words =
  word_khorosho_def word_plokho_def word_kharasho_def word_stol_def word_okno_def
  word_dom_def word_privet_def word_kak_def word_dela_def word_u_def word_menya_def
  word_vsyo_def word_ya_def word_kot_def

lemmas search_defs =
  find_closest_word_def dict_contains_def dict_keys_def levenshtein_distance_def
  py_max_def dict_getitem_def

lemmas tokenize_defs =
  tokenize_def str_split_def re_sub_class_def str_lower_def lower_char_def
  class_matches_def noise_class_def is_space_def

text \<open>
  Claim C10: for every non-empty lexicon and every token \<open>w\<close>, \<open>_find_closest_word\<close>
  returns a key of the lexicon, \<open>w\<close> itself when \<open>w\<close> is a key. The empty-string
  sentinel is a key, so the result can be the empty string: with the lexicon of privet
  and the sentinel, the token ya becomes the empty string, and the sentence
  \<open>privet ya privet\<close> comes out with two consecutive spaces.
\<close>

theorem find_closest_word_returns_key:
  "(train_dict self \<noteq> [] \<longrightarrow>
      (\<exists>k. find_closest_word self w = Inr k \<and> dict_contains (train_dict self) k
         \<and> (dict_contains (train_dict self) w \<longrightarrow> k = w)))
   \<and> find_closest_word sentinel_corrector word_ya = Inr []
   \<and> correct_sentence sentinel_corrector sentence_privet_ya_privet
       = Inr (word_privet @ [32, 32] @ word_privet)"
proof (intro conjI impI)
  assume nonempty: "train_dict self \<noteq> []"
  show "\<exists>k. find_closest_word self w = Inr k \<and> dict_contains (train_dict self) k
         \<and> (dict_contains (train_dict self) w \<longrightarrow> k = w)"
  proof (cases "dict_contains (train_dict self) w")
    case True
    then show ?thesis by (simp add: find_closest_word_key)
  next
    case False
    from find_closest_word_search [OF False nonempty] obtain pre k post where
      "find_closest_word self w = Inr k" "dict_keys (train_dict self) = pre @ k # post"
      by blast
    with False show ?thesis by (auto simp: dict_contains_def)
  qed
next
  show "find_closest_word sentinel_corrector word_ya = Inr []"
    by (simp add: sentinel_corrector_def search_defs example_words)
next
  have t: "tokenize sentence_privet_ya_privet = [word_privet, word_ya, word_privet]"
    by (simp add: sentence_privet_ya_privet_def tokenize_defs example_words)
  have l: "correct_loop sentinel_corrector [word_privet, word_ya, word_privet] []
       = Inr [word_privet, [], word_privet]"
    by (simp add: sentinel_corrector_def search_defs example_words)
  show "correct_sentence sentinel_corrector sentence_privet_ya_privet
       = Inr (word_privet @ [32, 32] @ word_privet)"
    unfolding correct_sentence_def t l by simp
qed

theorem find_closest_word_returns_key_witness:
  "train_dict sentinel_corrector \<noteq> []
   \<and> (\<exists>k. find_closest_word sentinel_corrector word_ya = Inr k
          \<and> dict_contains (train_dict sentinel_corrector) k)"
proof -
  have h: "train_dict sentinel_corrector \<noteq> []"
    by (simp add: sentinel_corrector_def)
  from find_closest_word_returns_key [of sentinel_corrector word_ya] h
  show ?thesis by blast
qed

subsection \<open>The sonority table\<close>

lemma closest_loop_any_self: "closest_loop c1 w ks st = closest_loop c2 w ks st"
proof (induction ks arbitrary: st)
  case Nil
  show ?case by simp
next
  case (Cons k ks)
  obtain m cw where st: "st = (m, cw)" by (cases st)
  show ?case
    unfolding st using Cons.IH by (simp add: levenshtein_distance_def Let_def)
qed

lemma find_closest_word_train_dict:
  "train_dict c1 = train_dict c2 \<Longrightarrow> find_closest_word c1 w = find_closest_word c2 w"
  using closest_loop_any_self [of c1 w "dict_keys (train_dict c2)" "(\<infinity>, [])" c2]
  by (simp add: find_closest_word_def split: prod.splits)

lemma correct_loop_train_dict:
  "train_dict c1 = train_dict c2 \<Longrightarrow> correct_loop c1 ws acc = correct_loop c2 ws acc"
proof (induction ws arbitrary: acc)
  case Nil
  show ?case by simp
next
  case (Cons x ws)
  then show ?case
    using find_closest_word_train_dict [of c1 c2 x] by (simp split: sum.splits)
qed

text \<open>
  Claim C9: the results of \<open>_find_closest_word\<close> and \<open>correct_sentence\<close> do not depend
  on the sonority table: two correctors that agree on the word list and on the lexicon
  return the same results on every input, whatever their sonority tables are.
\<close>

theorem sonority_not_consulted:
  assumes "dict_full c1 = dict_full c2" and "train_dict c1 = train_dict c2"
  shows "find_closest_word c1 w = find_closest_word c2 w
         \<and> correct_sentence c1 s = correct_sentence c2 s"
  using find_closest_word_train_dict [OF assms(2), of w]
    correct_loop_train_dict [OF assms(2), of "tokenize s" "[]"]
  by (simp add: correct_sentence_def)

theorem sonority_not_consulted_witness:
  "sonority (sentinel_corrector\<lparr>sonority := []\<rparr>) \<noteq> sonority sentinel_corrector
   \<and> find_closest_word (sentinel_corrector\<lparr>sonority := []\<rparr>) word_ya
       = find_closest_word sentinel_corrector word_ya
   \<and> correct_sentence (sentinel_corrector\<lparr>sonority := []\<rparr>) sentence_privet_ya_privet
       = correct_sentence sentinel_corrector sentence_privet_ya_privet"
proof -
  have h1: "dict_full (sentinel_corrector\<lparr>sonority := []\<rparr>) = dict_full sentinel_corrector"
    by simp
  have h2: "train_dict (sentinel_corrector\<lparr>sonority := []\<rparr>) = train_dict sentinel_corrector"
    by simp
  have h3: "sonority (sentinel_corrector\<lparr>sonority := []\<rparr>) \<noteq> sonority sentinel_corrector"
    by (simp add: sentinel_corrector_def sonority_table_def)
  note r = sonority_not_consulted [OF h1 h2, of word_ya sentence_privet_ya_privet]
  show ?thesis
    using h3 r by (intro conjI) (rule h3, rule conjunct1 [OF r], rule conjunct2 [OF r])
qed

section \<open>Claims about the correction of a sentence\<close>

lemma correct_loop_append:
  "\<exists>cws. correct_loop self ws acc = Inr (acc @ cws)
     \<and> list_all2 (\<lambda>word cw. if dict_contains (train_dict self) word then cw = word
                            else find_closest_word self word = Inr cw) ws cws"
proof (induction ws arbitrary: acc)
  case Nil
  show ?case by simp
next
  case (Cons x ws)
  let ?R = "\<lambda>word cw. if dict_contains (train_dict self) word then cw = word
                      else find_closest_word self word = Inr cw"
  obtain k where k: "find_closest_word self x = Inr k"
    using find_closest_word_total by blast
  let ?c = "if dict_contains (train_dict self) x then x else k"
  have step: "correct_loop self (x # ws) acc = correct_loop self ws (acc @ [?c])"
    using k by simp
  have head: "?R x ?c" using k by simp
  from Cons.IH [of "acc @ [?c]"] obtain cws where
    cws: "correct_loop self ws (acc @ [?c]) = Inr ((acc @ [?c]) @ cws)" "list_all2 ?R ws cws"
    by blast
  have "correct_loop self (x # ws) acc = Inr (acc @ (?c # cws))"
    using step cws(1) by simp
  moreover have "list_all2 ?R (x # ws) (?c # cws)"
    using head cws(2) by simp
  ultimately show ?case by blast
qed

text \<open>
  Claim C7: for every input string, \<open>correct_sentence\<close> tokenizes it, keeps each token
  that is a key of the lexicon, replaces each other token by the result of
  \<open>_find_closest_word\<close>, and joins the results in the order of the tokens with single
  spaces. It always returns a string, the empty one when there is no token.
\<close>

theorem correct_sentence_tokenwise:
  "(\<exists>corrected_words. correct_sentence self s = Inr (str_join [32] corrected_words)
      \<and> list_all2 (\<lambda>word cw. if dict_contains (train_dict self) word then cw = word
                             else find_closest_word self word = Inr cw)
           (tokenize s) corrected_words)
   \<and> (tokenize s = [] \<longrightarrow> correct_sentence self s = Inr [])"
proof
  from correct_loop_append [of self "tokenize s" "[]"] obtain cws where
    cws: "correct_loop self (tokenize s) [] = Inr cws"
      "list_all2 (\<lambda>word cw. if dict_contains (train_dict self) word then cw = word
                             else find_closest_word self word = Inr cw) (tokenize s) cws"
    by auto
  have "correct_sentence self s = Inr (str_join [32] cws)"
    using cws(1) by (simp add: correct_sentence_def)
  with cws(2) show "\<exists>corrected_words. correct_sentence self s = Inr (str_join [32] corrected_words)
      \<and> list_all2 (\<lambda>word cw. if dict_contains (train_dict self) word then cw = word
                             else find_closest_word self word = Inr cw)
           (tokenize s) corrected_words"
    by blast
next
  show "tokenize s = [] \<longrightarrow> correct_sentence self s = Inr []"
    by (simp add: correct_sentence_def)
qed

theorem correct_sentence_tokenwise_witness:
  "tokenize sentence_greeting
     = [word_privet, word_kak, word_dela, word_u, word_menya, word_vsyo, word_kharasho]
   \<and> (\<exists>corrected_words.
         correct_sentence greeting_corrector sentence_greeting
           = Inr (str_join [32] corrected_words)
         \<and> length corrected_words = 7)
   \<and> correct_sentence greeting_corrector sentence_greeting
       = Inr (word_privet @ [32] @ word_kak @ [32] @ word_dela @ [32] @ word_u @ [32]
              @ word_menya @ [32] @ word_vsyo @ [32] @ word_khorosho)
   \<and> tokenize [32, 33, 32] = []
   \<and> correct_sentence greeting_corrector [32, 33, 32] = Inr []"
proof -
  have t: "tokenize sentence_greeting
     = [word_privet, word_kak, word_dela, word_u, word_menya, word_vsyo, word_kharasho]"
    by (simp add: sentence_greeting_def tokenize_defs example_words)
  have r: "correct_sentence greeting_corrector sentence_greeting
       = Inr (word_privet @ [32] @ word_kak @ [32] @ word_dela @ [32] @ word_u @ [32]
              @ word_menya @ [32] @ word_vsyo @ [32] @ word_khorosho)"
    unfolding correct_sentence_def t
    by (simp add: greeting_corrector_def search_defs example_words)
  have e: "tokenize [32, 33, 32] = []"
    by (simp add: tokenize_defs)
  from correct_sentence_tokenwise [of greeting_corrector sentence_greeting] obtain cws where
    cws: "correct_sentence greeting_corrector sentence_greeting = Inr (str_join [32] cws)"
      "list_all2 (\<lambda>word cw. if dict_contains (train_dict greeting_corrector) word then cw = word
                             else find_closest_word greeting_corrector word = Inr cw)
           (tokenize sentence_greeting) cws"
    by blast
  have "length cws = 7"
    using list_all2_lengthD [OF cws(2)] t by simp
  with cws(1) have ex: "\<exists>corrected_words.
         correct_sentence greeting_corrector sentence_greeting
           = Inr (str_join [32] corrected_words)
         \<and> length corrected_words = 7"
    by blast
  have "correct_sentence greeting_corrector [32, 33, 32] = Inr []"
    using correct_sentence_tokenwise [of greeting_corrector "[32, 33, 32]"] e by blast
  with t r e ex show ?thesis by blast
qed

section \<open>Claims about the construction of the lexicon\<close>

subsection \<open>Setting and popping keys\<close>

lemma map_of_dict_setitem: "map_of (dict_setitem d k v) = (map_of d)(k \<mapsto> v)"
  by (induction d k v rule: dict_setitem.induct) (auto simp: fun_eq_iff)

lemma keys_dict_setitem:
  "set (dict_keys (dict_setitem d k v)) = insert k (set (dict_keys d))"
  by (induction d k v rule: dict_setitem.induct) (auto simp: dict_keys_def)

lemma distinct_dict_setitem:
  "distinct (dict_keys d) \<Longrightarrow> distinct (dict_keys (dict_setitem d k v))"
proof (induction d k v rule: dict_setitem.induct)
  case (1 k v)
  show ?case by (simp add: dict_keys_def)
next
  case (2 a b ps k v)
  then show ?case
    using keys_dict_setitem [of ps k v] by (auto simp: dict_keys_def)
qed

lemma map_of_dict_pop_other: "k \<noteq> k' \<Longrightarrow> map_of (dict_pop d k') k = map_of d k"
  by (induction d k' rule: dict_pop.induct) auto

lemma keys_dict_pop: "set (dict_keys (dict_pop d k)) \<subseteq> set (dict_keys d)"
  by (induction d k rule: dict_pop.induct) (auto simp: dict_keys_def)

lemma distinct_dict_pop: "distinct (dict_keys d) \<Longrightarrow> distinct (dict_keys (dict_pop d k))"
proof (induction d k rule: dict_pop.induct)
  case (1 k)
  show ?case by (simp add: dict_keys_def)
next
  case (2 a b ps k)
  then show ?case
    using keys_dict_pop [of ps k] by (auto simp: dict_keys_def)
qed

lemma count_keys_dict_pop:
  "count_list (dict_keys (dict_pop d k')) k =
     (if k = k' then count_list (dict_keys d) k - 1 else count_list (dict_keys d) k)"
  by (induction d k' rule: dict_pop.induct) (auto simp: dict_keys_def)

lemma map_of_pops: "k \<notin> set ps \<Longrightarrow> map_of (foldl dict_pop d ps) k = map_of d k"
  by (induction ps arbitrary: d) (auto simp: map_of_dict_pop_other)

lemma count_keys_pops:
  "count_list (dict_keys (foldl dict_pop d ps)) k = count_list (dict_keys d) k - count_list ps k"
  by (induction ps arbitrary: d) (auto simp: count_keys_dict_pop)

lemma distinct_pops: "distinct (dict_keys d) \<Longrightarrow> distinct (dict_keys (foldl dict_pop d ps))"
  by (induction ps arbitrary: d) (auto simp: distinct_dict_pop)

lemma keys_pops: "set (dict_keys (foldl dict_pop d ps)) \<subseteq> set (dict_keys d)"
proof (induction ps arbitrary: d)
  case Nil
  show ?case by simp
next
  case (Cons p ps)
  show ?case
    using Cons.IH [of "dict_pop d p"] keys_dict_pop [of d p] by auto
qed

lemma count_list_filter:
  "count_list (filter P xs) k = (if P k then count_list xs k else 0)"
  by (induction xs) auto

subsection \<open>The filter loop\<close>

lemma drop_condition_key:
  assumes "k \<in> set (dict_keys buf)"
  shows "drop_condition full buf k =
     Inr ((\<not> dict_contains full k \<and> dict_get buf k 0 < 5)
          \<or> (length k < 4 \<and> dict_get buf k 0 < 50 \<and> \<not> dict_contains full k))"
  using dict_getitem_key [OF assms, of 0]
  by (auto simp: drop_condition_def short_rule_def critical_def)

lemma filter_loop_pops:
  assumes "set ws \<subseteq> set (dict_keys buf)"
  shows "filter_loop full buf ws d =
     Inr (foldl dict_pop d
            (filter (\<lambda>k. (\<not> dict_contains full k \<and> dict_get buf k 0 < 5)
                         \<or> (length k < 4 \<and> dict_get buf k 0 < 50 \<and> \<not> dict_contains full k))
               ws))"
  using assms
proof (induction ws arbitrary: d)
  case Nil
  show ?case by simp
next
  case (Cons w ws)
  then have w: "w \<in> set (dict_keys buf)" and ws: "set ws \<subseteq> set (dict_keys buf)"
    by simp_all
  show ?case
    using Cons.IH [OF ws] by (simp add: drop_condition_key [OF w] split: bool.splits)
qed


lemma filter_dictionary_result:
  "\<exists>dictionary. filter_dictionary full buf = Inr dictionary
     \<and> set (dict_keys dictionary) \<subseteq> set (dict_keys buf)
     \<and> (distinct (dict_keys buf) \<longrightarrow> distinct (dict_keys dictionary))
     \<and> (\<forall>w. map_of dictionary w =
           (case map_of buf w of
              None \<Rightarrow> None
            | Some c \<Rightarrow>
                if (\<not> dict_contains full w \<and> c < 5)
                   \<or> (length w < 4 \<and> c < 50 \<and> \<not> dict_contains full w)
                then None else Some c))"
proof -
  let ?drops = "\<lambda>k. (\<not> dict_contains full k \<and> dict_get buf k 0 < 5)
                    \<or> (length k < 4 \<and> dict_get buf k 0 < 50 \<and> \<not> dict_contains full k)"
  let ?ps = "filter ?drops (dict_keys buf)"
  let ?d = "foldl dict_pop buf ?ps"
  have res: "filter_dictionary full buf = Inr ?d"
    unfolding filter_dictionary_def by (rule filter_loop_pops) simp
  have look: "map_of ?d w =
           (case map_of buf w of
              None \<Rightarrow> None
            | Some c \<Rightarrow>
                if (\<not> dict_contains full w \<and> c < 5)
                   \<or> (length w < 4 \<and> c < 50 \<and> \<not> dict_contains full w)
                then None else Some c)" for w
  proof (cases "map_of buf w")
    case None
    then have "w \<notin> set (dict_keys buf)"
      by (simp add: dict_keys_def map_of_eq_None_iff)
    with keys_pops [of buf ?ps] have "w \<notin> set (dict_keys ?d)" by blast
    then have "map_of ?d w = None"
      by (simp add: dict_keys_def map_of_eq_None_iff)
    with None show ?thesis by simp
  next
    case (Some c)
    then have c: "dict_get buf w 0 = c" by (simp add: dict_get_def)
    show ?thesis
    proof (cases "?drops w")
      case True
      have "count_list (dict_keys ?d) w = 0"
        using True by (simp add: count_keys_pops count_list_filter)
      then have "w \<notin> set (dict_keys ?d)"
        by (simp add: count_list_0_iff)
      then have "map_of ?d w = None"
        by (simp add: dict_keys_def map_of_eq_None_iff)
      with Some True c show ?thesis by simp
    next
      case False
      then have "w \<notin> set ?ps" by simp
      then have "map_of ?d w = map_of buf w" by (rule map_of_pops)
      with Some False c show ?thesis by simp
    qed
  qed
  from res look keys_pops [of buf ?ps] distinct_pops [of buf ?ps] show ?thesis
    by blast
qed


subsection \<open>The frequency table\<close>

lemma distinct_count_words:
  "distinct (dict_keys buf) \<Longrightarrow> distinct (dict_keys (foldl count_word buf ws))"
  by (induction ws arbitrary: buf) (auto simp: count_word_def distinct_dict_setitem)

lemma distinct_count_strings:
  "distinct (dict_keys buf) \<Longrightarrow> distinct (dict_keys (foldl count_string buf ss))"
  by (induction ss arbitrary: buf) (auto simp: count_string_def distinct_count_words)

lemma distinct_count_corpus: "distinct (dict_keys (count_corpus train_correct))"
  unfolding count_corpus_def by (rule distinct_count_strings) (simp add: dict_keys_def)

text \<open>
  Claim C3: for every frequency table and base vocabulary, the filter drops a token
  \<open>w\<close> with count \<open>c\<close> exactly when \<open>w\<close> is not in the base vocabulary and \<open>c < 5\<close>, or
  \<open>len(w) < 4\<close> and \<open>c < 50\<close> and \<open>w\<close> is not in the base vocabulary; every retained token
  keeps its count. The same holds of the finished lexicon for every token other than
  the sentinel. With an empty base vocabulary and the counts stol 3, okno 60, dom 5
  only okno stays, with count 60.
\<close>

theorem filter_dictionary_retention_rule:
  "(\<exists>dictionary. filter_dictionary full buf = Inr dictionary
      \<and> (\<forall>w. map_of dictionary w =
            (case map_of buf w of
               None \<Rightarrow> None
             | Some c \<Rightarrow>
                 if (\<not> dict_contains full w \<and> c < 5)
                    \<or> (length w < 4 \<and> c < 50 \<and> \<not> dict_contains full w)
                 then None else Some c)))
   \<and> (\<exists>lexicon. process_training_data full train_correct = Inr lexicon
      \<and> (\<forall>w. w \<noteq> [] \<longrightarrow> map_of lexicon w =
            (case map_of (count_corpus train_correct) w of
               None \<Rightarrow> None
             | Some c \<Rightarrow>
                 if (\<not> dict_contains full w \<and> c < 5)
                    \<or> (length w < 4 \<and> c < 50 \<and> \<not> dict_contains full w)
                 then None else Some c)))
   \<and> filter_dictionary [] example_counts = Inr [(word_okno, 60)]"
proof (intro conjI)
  show "\<exists>dictionary. filter_dictionary full buf = Inr dictionary
      \<and> (\<forall>w. map_of dictionary w =
            (case map_of buf w of
               None \<Rightarrow> None
             | Some c \<Rightarrow>
                 if (\<not> dict_contains full w \<and> c < 5)
                    \<or> (length w < 4 \<and> c < 50 \<and> \<not> dict_contains full w)
                 then None else Some c))"
    using filter_dictionary_result [of full buf] by blast
next
  from filter_dictionary_result [of full "count_corpus train_correct"] obtain dictionary where
    d: "filter_dictionary full (count_corpus train_correct) = Inr dictionary"
       "\<forall>w. map_of dictionary w =
            (case map_of (count_corpus train_correct) w of
               None \<Rightarrow> None
             | Some c \<Rightarrow>
                 if (\<not> dict_contains full w \<and> c < 5)
                    \<or> (length w < 4 \<and> c < 50 \<and> \<not> dict_contains full w)
                 then None else Some c)"
    by blast
  have "process_training_data full train_correct = Inr (dict_setitem dictionary [] 1)"
    using d(1) by (simp add: process_training_data_def)
  moreover have "\<forall>w. w \<noteq> [] \<longrightarrow> map_of (dict_setitem dictionary [] 1) w = map_of dictionary w"
    by (simp add: map_of_dict_setitem)
  ultimately show "\<exists>lexicon. process_training_data full train_correct = Inr lexicon
      \<and> (\<forall>w. w \<noteq> [] \<longrightarrow> map_of lexicon w =
            (case map_of (count_corpus train_correct) w of
               None \<Rightarrow> None
             | Some c \<Rightarrow>
                 if (\<not> dict_contains full w \<and> c < 5)
                    \<or> (length w < 4 \<and> c < 50 \<and> \<not> dict_contains full w)
                 then None else Some c))"
    using d(2) by simp
next
  show "filter_dictionary [] example_counts = Inr [(word_okno, 60)]"
    by (simp add: filter_dictionary_def example_counts_def drop_condition_def short_rule_def
        critical_def dict_contains_def dict_keys_def dict_getitem_def example_words)
qed

theorem filter_dictionary_retention_rule_witness:
  "(\<exists>dictionary. filter_dictionary [] example_counts = Inr dictionary
      \<and> map_of dictionary word_stol = None \<and> map_of dictionary word_dom = None
      \<and> map_of dictionary word_okno = Some 60)
   \<and> word_stol \<noteq> []
   \<and> (\<exists>lexicon.
         process_training_data [(word_stol, 1)] [word_stol @ [32] @ word_okno] = Inr lexicon
         \<and> map_of lexicon word_stol = Some 1 \<and> map_of lexicon word_okno = None)"
proof -
  note r = filter_dictionary_retention_rule [of "[]" example_counts]
  note r' = filter_dictionary_retention_rule
    [of "[(word_stol, 1)]" _ "[word_stol @ [32] @ word_okno]"]
  have counts: "map_of example_counts word_stol = Some 3"
    "map_of example_counts word_dom = Some 5" "map_of example_counts word_okno = Some 60"
    by (simp_all add: example_counts_def example_words)
  from conjunct1 [OF r] obtain dictionary where
    d: "filter_dictionary [] example_counts = Inr dictionary"
       "\<forall>w. map_of dictionary w =
            (case map_of example_counts w of
               None \<Rightarrow> None
             | Some c \<Rightarrow>
                 if (\<not> dict_contains ([] :: (pystr, int) pydict) w \<and> c < 5)
                    \<or> (length w < 4 \<and> c < 50 \<and> \<not> dict_contains ([] :: (pystr, int) pydict) w)
                 then None else Some c)"
    by blast
  have a: "map_of dictionary word_stol = None"
    using spec [OF d(2), of word_stol] counts(1) by (simp add: dict_contains_def dict_keys_def)
  have b: "map_of dictionary word_dom = None"
    using spec [OF d(2), of word_dom] counts(2)
    by (simp add: dict_contains_def dict_keys_def word_dom_def)
  have c: "map_of dictionary word_okno = Some 60"
    using spec [OF d(2), of word_okno] counts(3) by (simp add: dict_contains_def dict_keys_def)
  have ne: "word_stol \<noteq> []" "word_okno \<noteq> []"
    by (simp_all add: example_words)
  have corpus: "count_corpus [word_stol @ [32] @ word_okno] = [(word_stol, 1), (word_okno, 1)]"
    by (simp add: count_corpus_def count_string_def count_word_def dict_get_def
        tokenize_defs example_words)
  from conjunct1 [OF conjunct2 [OF r']] obtain lexicon where
    l: "process_training_data [(word_stol, 1)] [word_stol @ [32] @ word_okno] = Inr lexicon"
       "\<forall>w. w \<noteq> [] \<longrightarrow> map_of lexicon w =
            (case map_of (count_corpus [word_stol @ [32] @ word_okno]) w of
               None \<Rightarrow> None
             | Some c \<Rightarrow>
                 if (\<not> dict_contains [(word_stol, 1 :: int)] w \<and> c < 5)
                    \<or> (length w < 4 \<and> c < 50 \<and> \<not> dict_contains [(word_stol, 1 :: int)] w)
                 then None else Some c)"
    by blast
  have look: "map_of [(word_stol, 1), (word_okno, 1 :: int)] word_stol = Some 1"
    "map_of [(word_stol, 1), (word_okno, 1 :: int)] word_okno = Some 1"
    by (simp_all add: example_words)
  have base: "dict_contains [(word_stol, 1 :: int)] word_stol"
    "\<not> dict_contains [(word_stol, 1 :: int)] word_okno"
    by (simp_all add: dict_contains_def dict_keys_def example_words)
  have e: "map_of lexicon word_stol = Some 1"
    using mp [OF spec [OF l(2), of word_stol] ne(1)] look(1) base(1)
    unfolding corpus by simp
  have f: "map_of lexicon word_okno = None"
    using mp [OF spec [OF l(2), of word_okno] ne(2)] look(2) base(2)
    unfolding corpus by simp
  from d(1) a b c have first: "\<exists>dictionary. filter_dictionary [] example_counts = Inr dictionary
      \<and> map_of dictionary word_stol = None \<and> map_of dictionary word_dom = None
      \<and> map_of dictionary word_okno = Some 60"
    by blast
  from l(1) e f have second: "\<exists>lexicon.
         process_training_data [(word_stol, 1)] [word_stol @ [32] @ word_okno] = Inr lexicon
         \<and> map_of lexicon word_stol = Some 1 \<and> map_of lexicon word_okno = None"
    by blast
  from first ne(1) second show ?thesis by (intro conjI)
qed

text \<open>
  Claim C4: for every training corpus and base vocabulary, the lexicon that
  \<open>_process_training_data\<close> returns (and with it the lexicon of the constructed
  corrector) has the empty string as a key with frequency exactly 1, in one entry only;
  the assignment of line 62 overwrites whatever value the key had.
\<close>

theorem process_training_data_sentinel:
  "(\<exists>lexicon. process_training_data full train_correct = Inr lexicon
      \<and> dict_contains lexicon [] \<and> dict_getitem lexicon [] = Inr 1
      \<and> distinct (dict_keys lexicon))
   \<and> (\<exists>self. init dictionary_lines train_correct = Inr self
      \<and> dict_contains (train_dict self) [] \<and> dict_getitem (train_dict self) [] = Inr 1)
   \<and> dict_getitem (dict_setitem (dictionary :: (pystr, int) pydict) [] 1) [] = Inr 1"
proof -
  have over: "dict_contains (dict_setitem d [] 1) [] \<and> dict_getitem (dict_setitem d [] 1) [] = Inr 1"
    for d :: "(pystr, int) pydict"
    by (simp add: dict_contains_def keys_dict_setitem dict_getitem_def map_of_dict_setitem)
  have total: "\<exists>lexicon. process_training_data f train_correct = Inr lexicon
      \<and> dict_contains lexicon [] \<and> dict_getitem lexicon [] = Inr 1
      \<and> distinct (dict_keys lexicon)" for f
  proof -
    from filter_dictionary_result [of f "count_corpus train_correct"] obtain d where
      d: "filter_dictionary f (count_corpus train_correct) = Inr d"
         "distinct (dict_keys (count_corpus train_correct)) \<longrightarrow> distinct (dict_keys d)"
      by blast
    have "process_training_data f train_correct = Inr (dict_setitem d [] 1)"
      using d(1) by (simp add: process_training_data_def)
    moreover have "distinct (dict_keys (dict_setitem d [] 1))"
      using d(2) distinct_count_corpus by (simp add: distinct_dict_setitem)
    ultimately show ?thesis using over [of d] by simp
  qed
  from total [of "load_russian_dictionary dictionary_lines"] obtain lexicon where
    l: "process_training_data (load_russian_dictionary dictionary_lines) train_correct
          = Inr lexicon"
       "dict_contains lexicon []" "dict_getitem lexicon [] = Inr 1"
    by blast
  have "\<exists>self. init dictionary_lines train_correct = Inr self
      \<and> dict_contains (train_dict self) [] \<and> dict_getitem (train_dict self) [] = Inr 1"
    using l by (simp add: init_def)
  with total [of full] over [of dictionary] show ?thesis by blast
qed

section \<open>Claims about the loader and the tokenizer\<close>

subsection \<open>Stripping whitespace\<close>

lemma str_rstrip_split:
  "s = str_rstrip s @ rev (takeWhile is_space (rev s))"
proof -
  have "str_rstrip s @ rev (takeWhile is_space (rev s))
      = rev (takeWhile is_space (rev s) @ dropWhile is_space (rev s))"
    by (simp only: str_rstrip_def rev_append)
  also have "\<dots> = rev (rev s)"
    by (simp only: takeWhile_dropWhile_id)
  finally show ?thesis by simp
qed

lemma str_rstrip_last: "str_rstrip s \<noteq> [] \<Longrightarrow> \<not> is_space (last (str_rstrip s))"
proof -
  assume "str_rstrip s \<noteq> []"
  then have ne: "dropWhile is_space (rev s) \<noteq> []"
    by (simp add: str_rstrip_def)
  then have "\<not> is_space (hd (dropWhile is_space (rev s)))"
    by (rule hd_dropWhile)
  with ne show ?thesis
    by (simp add: str_rstrip_def last_rev)
qed

lemma str_strip_shape:
  "\<exists>lead trail. line = lead @ str_strip line @ trail
     \<and> (\<forall>c\<in>set lead. is_space c) \<and> (\<forall>c\<in>set trail. is_space c)
     \<and> (str_strip line \<noteq> [] \<longrightarrow>
           \<not> is_space (hd (str_strip line)) \<and> \<not> is_space (last (str_strip line)))"
proof -
  let ?lead = "takeWhile is_space line"
  let ?rest = "str_lstrip line"
  let ?trail = "rev (takeWhile is_space (rev ?rest))"
  have whole: "line = ?lead @ ?rest"
    by (simp add: str_lstrip_def)
  have rest: "?rest = str_strip line @ ?trail"
    using str_rstrip_split [of ?rest] by (simp add: str_strip_def)
  have split: "line = ?lead @ str_strip line @ ?trail"
    using whole rest by simp
  have lead: "\<forall>c\<in>set ?lead. is_space c"
    by (auto dest: set_takeWhileD)
  have trail: "\<forall>c\<in>set ?trail. is_space c"
    by (auto dest: set_takeWhileD)
  have ends: "\<not> is_space (hd (str_strip line)) \<and> \<not> is_space (last (str_strip line))"
    if ne: "str_strip line \<noteq> []"
  proof
    from ne rest have "?rest \<noteq> []" by auto
    then have "\<not> is_space (hd ?rest)"
      unfolding str_lstrip_def by (rule hd_dropWhile)
    moreover have "hd ?rest = hd (str_strip line)"
      using rest ne by (metis hd_append2)
    ultimately show "\<not> is_space (hd (str_strip line))" by simp
  next
    show "\<not> is_space (last (str_strip line))"
      using ne str_rstrip_last [of ?rest] by (simp add: str_strip_def)
  qed
  from split lead trail ends show ?thesis by blast
qed

text \<open>
  Claim C8, as amended: for every raw word-list line the loader removes the whitespace
  at both ends of the line (\<open>strip\<close>), so leading whitespace is not kept; if what is
  left begins with the marker \<^verbatim>\<open>-\<close> it stores the remainder after that one character,
  otherwise it stores what is left as it is, in both cases with the value 1.
\<close>

theorem load_line_strips_both_ends:
  "\<exists>lead word trail. line = lead @ word @ trail
     \<and> (\<forall>c\<in>set lead. is_space c) \<and> (\<forall>c\<in>set trail. is_space c)
     \<and> (word \<noteq> [] \<longrightarrow> \<not> is_space (hd word) \<and> \<not> is_space (last word))
     \<and> load_line d line
          = dict_setitem d (if word \<noteq> [] \<and> hd word = 45 then tl word else word) 1
     \<and> map_of (load_line d line)
          = (map_of d)((if word \<noteq> [] \<and> hd word = 45 then tl word else word) \<mapsto> 1)"
proof -
  from str_strip_shape [of line] obtain lead trail where
    s: "line = lead @ str_strip line @ trail"
       "\<forall>c\<in>set lead. is_space c" "\<forall>c\<in>set trail. is_space c"
       "str_strip line \<noteq> [] \<longrightarrow>
          \<not> is_space (hd (str_strip line)) \<and> \<not> is_space (last (str_strip line))"
    by blast
  let ?word = "str_strip line"
  have l: "load_line d line
      = dict_setitem d (if ?word \<noteq> [] \<and> hd ?word = 45 then tl ?word else ?word) 1"
    by (simp add: load_line_def Let_def)
  have m: "map_of (load_line d line)
      = (map_of d)((if ?word \<noteq> [] \<and> hd ?word = 45 then tl ?word else ?word) \<mapsto> 1)"
    unfolding l by (rule map_of_dict_setitem)
  from s l m show ?thesis by blast
qed

text \<open>
  The claim as stated (only the end of the line is trimmed, leading whitespace is
  preserved) fails on a line with two leading spaces: the source stores \<open>kot\<close>, the
  loader of the specification's words stores the word with its two spaces.
\<close>

theorem load_line_leading_whitespace_counterexample:
  "load_line [] line_indented_kot = [(word_kot, 1)]
   \<and> spec_load_line [] line_indented_kot = [([32, 32] @ word_kot, 1)]
   \<and> load_line [] line_indented_kot \<noteq> spec_load_line [] line_indented_kot"
  by (simp add: load_line_def spec_load_line_def str_strip_def str_lstrip_def str_rstrip_def
      is_space_def line_indented_kot_def word_kot_def)

theorem load_line_strips_both_ends_witness:
  "load_line [] line_marked_kot = [(word_kot, 1)]
   \<and> (\<exists>lead word trail. line_marked_kot = lead @ word @ trail
         \<and> word \<noteq> [] \<and> \<not> is_space (hd word) \<and> \<not> is_space (last word)
         \<and> (\<forall>c\<in>set trail. is_space c))"
proof -
  have v: "load_line [] line_marked_kot = [(word_kot, 1)]"
    by (simp add: load_line_def str_strip_def str_lstrip_def str_rstrip_def
        is_space_def line_marked_kot_def word_kot_def)
  from load_line_strips_both_ends [of line_marked_kot "[]"] obtain lead word trail where
    w: "line_marked_kot = lead @ word @ trail"
       "\<forall>c\<in>set trail. is_space c"
       "word \<noteq> [] \<longrightarrow> \<not> is_space (hd word) \<and> \<not> is_space (last word)"
       "load_line ([] :: (pystr, int) pydict) line_marked_kot
          = dict_setitem [] (if word \<noteq> [] \<and> hd word = 45 then tl word else word) 1"
    by blast
  have "word \<noteq> []"
  proof
    assume "word = []"
    with w(4) v show False by (simp add: word_kot_def)
  qed
  with w(1,2,3) v show ?thesis by blast
qed

subsection \<open>The noise class\<close>

text \<open>The code points that the character class of the source matches.\<close>

lemma noise_class_code_points:
  "class_matches noise_class c \<longleftrightarrow>
     (33 \<le> c \<and> c \<le> 46) \<or> (48 \<le> c \<and> c \<le> 57) \<or> c = 63 \<or> c = 64 \<or> c = 91 \<or> c = 93
     \<or> (97 \<le> c \<and> c \<le> 122) \<or> c = 172"
  unfolding class_matches_def noise_class_def
  by (simp del: One_nat_def) presburger

text \<open>
  Claim C6: tokenization lowercases the string, replaces each character of the noise
  class by a space and splits on whitespace. The claim lists the class as the digits,
  the letters a to z and thirteen punctuation characters, and leaves every other
  character unchanged. In the pattern of the source \<^verbatim>\<open>$--\<close> is a range, so the percent
  sign, the ampersand, the parentheses, the asterisk and the plus sign are replaced as
  well: on \<open>da+net\<close> the source gives two tokens where the claim gives one.
\<close>

theorem tokenize_splits_at_plus_sign:
  "tokenize text_da_plus_net = [[1076, 1072], [1085, 1077, 1090]]
   \<and> spec_tokenize text_da_plus_net = [text_da_plus_net]
   \<and> class_matches noise_class 43 \<and> \<not> class_matches spec_noise_class 43"
  by (simp add: tokenize_defs spec_tokenize_def spec_noise_class_def text_da_plus_net_def)

end
